theory Spec2Isabelle
  imports Main "HOL-Library.Sublist"
begin

section \<open>parrot.py: an order-2 Markov chain over song lyrics\<close>

text \<open>
  The development embeds the text pipeline of \<^verbatim>\<open>parrot.py\<close>: the encoding of one
  lyric text (lines 72 to 78 of \<^verbatim>\<open>get_lyrics_corpus\<close>), \<^verbatim>\<open>build_distribution\<close> and
  \<^verbatim>\<open>generate_song\<close>. Python strings are \<^typ>\<open>string\<close>; a variable that may hold
  \<^verbatim>\<open>None\<close> is an \<^typ>\<open>string option\<close>; the dictionary is an association list in
  insertion order, which is the order \<^verbatim>\<open>list(distribution.keys())\<close> returns; an
  exception is the \<open>Inl\<close> side of a sum.
\<close>

subsection \<open>Errors\<close>

text \<open>
  \<open>IndexError\<close> is what \<^verbatim>\<open>random.choice\<close> raises on an empty sequence and
  \<open>TypeError\<close> is what \<^verbatim>\<open>str.join\<close> raises on an item that is not a string.
  \<open>GenerationError\<close> is the error kind the specification names; \<^verbatim>\<open>parrot.py\<close>
  defines no such exception and no equation below yields it.
\<close>

datatype error = IndexError | TypeError | GenerationError

subsection \<open>String primitives\<close>

definition nl :: char where
  "nl = CHR 0x0A"

definition sp :: char where
  "sp = CHR '' ''"

text \<open>\<^verbatim>\<open>s.split(c)\<close> for a one-character separator: one piece more than there are
  separators, empty pieces kept. The accumulator holds the current piece reversed.\<close>

fun split_acc :: "char \<Rightarrow> string \<Rightarrow> string \<Rightarrow> string list" where
  "split_acc c acc [] = [rev acc]"
| "split_acc c acc (x # xs) =
     (if x = c then rev acc # split_acc c [] xs else split_acc c (x # acc) xs)"

definition str_split :: "char \<Rightarrow> string \<Rightarrow> string list" where
  "str_split c s = split_acc c [] s"

text \<open>\<^verbatim>\<open>sep.join(xs)\<close> on a list of strings.\<close>

fun str_join :: "string \<Rightarrow> string list \<Rightarrow> string" where
  "str_join sep [] = []"
| "str_join sep [x] = x"
| "str_join sep (x # y # ys) = x @ sep @ str_join sep (y # ys)"

text \<open>\<^verbatim>\<open>s.replace(old, new)\<close>: occurrences are replaced from the left and do not
  overlap; with an empty \<open>old\<close> Python puts \<open>new\<close> before every character and at
  the end.\<close>

function str_replace :: "string \<Rightarrow> string \<Rightarrow> string \<Rightarrow> string" where
  "str_replace old new s =
     (if old = [] then new @ concat (map (\<lambda>c. c # new) s)
      else if s = [] then []
      else if prefix old s then new @ str_replace old new (drop (length old) s)
      else hd s # str_replace old new (tl s))"
  by pat_completeness auto
termination
  by (relation "measure (\<lambda>(old, new, s). length s)") auto

declare str_replace.simps [simp del]

subsection \<open>Encoding one lyric text (\<^verbatim>\<open>get_lyrics_corpus\<close>, lines 72 to 78)\<close>

definition sentinel :: string where
  "sentinel = ''(1409616144139)''"

text \<open>Line 72. The list returned by \<^verbatim>\<open>split\<close> is never empty, so \<^verbatim>\<open>lyrics[-1]\<close> on
  line 74 is its last element.\<close>

definition lyric_lines :: "string \<Rightarrow> string list" where
  "lyric_lines lyrics = str_split nl (str_replace [nl, nl] [nl] lyrics)"

text \<open>Lines 74 to 78: \<^verbatim>\<open>lyrics[:-4]\<close> keeps all but the last four items, and nothing
  when there are fewer than four.\<close>

definition encode_lyrics :: "string \<Rightarrow> string" where
  "encode_lyrics lyrics =
     (let ls = lyric_lines lyrics;
          ls' = (if last ls = sentinel then take (length ls - 4) ls else ls)
      in str_join [nl, sp] ls')"

text \<open>Line 87: the tokens of one corpus entry.\<close>

definition tokenize :: "string \<Rightarrow> string list" where
  "tokenize text = str_split sp (encode_lyrics text)"

subsection \<open>\<^verbatim>\<open>build_distribution\<close>\<close>

type_synonym token = string
type_synonym pair_key = "token \<times> token"
type_synonym distribution = "(pair_key \<times> token list) list"

text \<open>Lines 98 to 101: append to the entry of an existing key, or insert the key at the
  end of the dictionary.\<close>

fun dict_add :: "distribution \<Rightarrow> pair_key \<Rightarrow> token \<Rightarrow> distribution" where
  "dict_add [] key word = [(key, [word])]"
| "dict_add ((k, ws) # d) key word =
     (if k = key then (k, ws @ [word]) # d else (k, ws) # dict_add d key word)"

text \<open>Lines 95 to 104: the loop over \<^verbatim>\<open>song[2:]\<close>.\<close>

fun add_words :: "distribution \<Rightarrow> token \<Rightarrow> token \<Rightarrow> token list \<Rightarrow> distribution" where
  "add_words d prev_word1 prev_word2 [] = d"
| "add_words d prev_word1 prev_word2 (word # ws) =
     add_words (dict_add d (prev_word1, prev_word2) word) prev_word2 word ws"

text \<open>Lines 86 to 104: the loop over the corpus.\<close>

fun add_songs :: "distribution \<Rightarrow> string list \<Rightarrow> distribution" where
  "add_songs d [] = d"
| "add_songs d (s # corpus) =
     (let song = str_split sp s
      in if length song < 3 then add_songs d corpus
         else add_songs (add_words d (song ! 0) (song ! 1) (drop 2 song)) corpus)"

definition build_distribution :: "string list \<Rightarrow> distribution" where
  "build_distribution corpus = add_songs [] corpus"

subsection \<open>\<^verbatim>\<open>generate_song\<close>\<close>

text \<open>The random source is a sequence of natural numbers; the \<open>n\<close>-th call of
  \<^verbatim>\<open>random.choice\<close> reads its \<open>n\<close>-th element and reduces it to an index.
  On an empty sequence \<^verbatim>\<open>random.choice\<close> raises \<^verbatim>\<open>IndexError\<close>.\<close>

definition random_choice :: "(nat \<Rightarrow> nat) \<Rightarrow> nat \<Rightarrow> 'a list \<Rightarrow> error + 'a" where
  "random_choice rnd n xs =
     (if xs = [] then Inl IndexError else Inr (xs ! (rnd n mod length xs)))"

record walk_state =
  word1 :: "token option"
  word2 :: "token option"
  song :: "token option list"
  draws :: nat

definition init_state :: walk_state where
  "init_state = \<lparr>word1 = None, word2 = None, song = [], draws = 0\<rparr>"

text \<open>Lines 117 and 118.\<close>

definition pick_start :: "(nat \<Rightarrow> nat) \<Rightarrow> pair_key list \<Rightarrow> walk_state \<Rightarrow> error + walk_state" where
  "pick_start rnd word_pairs st =
     (if word1 st = None then
        (case random_choice rnd (draws st) word_pairs of
           Inl e \<Rightarrow> Inl e
         | Inr (a, b) \<Rightarrow>
             Inr (st\<lparr>word1 := Some a, word2 := Some b, draws := Suc (draws st)\<rparr>))
      else Inr st)"

text \<open>\<^verbatim>\<open>distribution[key]\<close> for \<^verbatim>\<open>key = (word1, word2)\<close>: a pair with a \<^verbatim>\<open>None\<close>
  component is no key of the dictionary.\<close>

fun dict_get :: "distribution \<Rightarrow> token option \<Rightarrow> token option \<Rightarrow> token list option" where
  "dict_get d (Some a) (Some b) = map_of d (a, b)"
| "dict_get d _ _ = None"

text \<open>Lines 120 to 129.\<close>

definition advance :: "(nat \<Rightarrow> nat) \<Rightarrow> distribution \<Rightarrow> walk_state \<Rightarrow> error + walk_state" where
  "advance rnd d st =
     (let st1 = st\<lparr>song := song st @ [word1 st]\<rparr>
      in case dict_get d (word1 st1) (word2 st1) of
           Some successors \<Rightarrow>
             (case random_choice rnd (draws st1) successors of
                Inl e \<Rightarrow> Inl e
              | Inr w \<Rightarrow>
                  Inr (st1\<lparr>word1 := word2 st1, word2 := Some w, draws := Suc (draws st1)\<rparr>))
         | None \<Rightarrow> Inr (st1\<lparr>song := song st1 @ [word2 st1], word1 := None\<rparr>))"

text \<open>One iteration of the loop of line 116.\<close>

definition walk_step :: "(nat \<Rightarrow> nat) \<Rightarrow> distribution \<Rightarrow> walk_state \<Rightarrow> error + walk_state" where
  "walk_step rnd d st =
     (case pick_start rnd (map fst d) st of
        Inl e \<Rightarrow> Inl e
      | Inr st1 \<Rightarrow> advance rnd d st1)"

fun walk_loop :: "(nat \<Rightarrow> nat) \<Rightarrow> distribution \<Rightarrow> nat \<Rightarrow> walk_state \<Rightarrow> error + walk_state" where
  "walk_loop rnd d 0 st = Inr st"
| "walk_loop rnd d (Suc n) st =
     (case walk_step rnd d st of
        Inl e \<Rightarrow> Inl e
      | Inr st' \<Rightarrow> walk_loop rnd d n st')"

text \<open>Lines 111 to 131: \<^verbatim>\<open>range(word_count - 1)\<close> is empty when \<^verbatim>\<open>word_count\<close> is at
  most 1; line 131 appends \<^verbatim>\<open>word2\<close> whatever it holds.\<close>

definition chain_walk :: "(nat \<Rightarrow> nat) \<Rightarrow> distribution \<Rightarrow> int \<Rightarrow> error + token option list" where
  "chain_walk rnd d word_count =
     (case walk_loop rnd d (nat (word_count - 1)) init_state of
        Inl e \<Rightarrow> Inl e
      | Inr st \<Rightarrow> Inr (song st @ [word2 st]))"

text \<open>Line 133: \<^verbatim>\<open>' '.join(song)\<close> raises \<^verbatim>\<open>TypeError\<close> when an item is \<^verbatim>\<open>None\<close>.\<close>

definition decode :: "token option list \<Rightarrow> error + string" where
  "decode toks =
     (if None \<in> set toks then Inl TypeError
      else Inr (str_replace [nl, sp] [nl] (str_join [sp] (map the toks))))"

definition generate_song :: "(nat \<Rightarrow> nat) \<Rightarrow> string list \<Rightarrow> int \<Rightarrow> error + string" where
  "generate_song rnd corpus word_count =
     (case chain_walk rnd (build_distribution corpus) word_count of
        Inl e \<Rightarrow> Inl e
      | Inr toks \<Rightarrow> decode toks)"

text \<open>The number of iterations, among the first \<open>n\<close> from state \<open>st\<close>, that take the
  branch of lines 125 to 129 (the pending pair is no key of the dictionary).\<close>

fun dead_ends :: "(nat \<Rightarrow> nat) \<Rightarrow> distribution \<Rightarrow> nat \<Rightarrow> walk_state \<Rightarrow> nat" where
  "dead_ends rnd d 0 st = 0"
| "dead_ends rnd d (Suc n) st =
     (case pick_start rnd (map fst d) st of
        Inl e \<Rightarrow> 0
      | Inr st1 \<Rightarrow>
          (if dict_get d (word1 st1) (word2 st1) = None then 1 else 0) +
          (case advance rnd d st1 of
             Inl e \<Rightarrow> 0
           | Inr st2 \<Rightarrow> dead_ends rnd d n st2))"

subsection \<open>Inputs and predicates used in the statements\<close>

text \<open>The random source whose every draw is 0: \<^verbatim>\<open>random.choice\<close> then returns the
  first item.\<close>

definition always_first :: "nat \<Rightarrow> nat" where
  "always_first n = 0"

definition scenario_A :: distribution where
  "scenario_A = [((''a'', ''b''), [''c'']), ((''b'', ''c''), [''d'']), ((''c'', ''d''), [''e''])]"

definition scenario_B :: distribution where
  "scenario_B = [((''a'', ''b''), [''c'', ''d''])]"

text \<open>\<^verbatim>\<open>old in s\<close> on strings.\<close>

fun contains :: "string \<Rightarrow> string \<Rightarrow> bool" where
  "contains old [] = (old = [])"
| "contains old (x # xs) = (prefix old (x # xs) \<or> contains old xs)"

text \<open>A line that holds nothing but spaces; the empty line is one.\<close>

definition space_only :: "string \<Rightarrow> bool" where
  "space_only l = list_all (\<lambda>c. c = sp) l"

text \<open>\<^verbatim>\<open>len(song) < 3\<close> for the tokens of a corpus entry (line 89).\<close>

definition short_song :: "string \<Rightarrow> bool" where
  "short_song s = (length (str_split sp s) < 3)"

text \<open>The positions of a song at which the two tokens of \<open>key\<close> stand side by side with
  one more token after them, in increasing order.\<close>

definition pair_positions :: "pair_key \<Rightarrow> token list \<Rightarrow> nat list" where
  "pair_positions key toks =
     filter (\<lambda>i. (toks ! i, toks ! (i + 1)) = key) [0..<length toks - 2]"

text \<open>The tokens that come right after an occurrence of \<open>key\<close>: in one song in the order
  of the positions, in a corpus song after song.\<close>

definition followers :: "pair_key \<Rightarrow> token list \<Rightarrow> token list" where
  "followers key toks = map (\<lambda>i. toks ! (i + 2)) (pair_positions key toks)"

definition corpus_followers :: "pair_key \<Rightarrow> string list \<Rightarrow> token list" where
  "corpus_followers key corpus = concat (map (\<lambda>s. followers key (str_split sp s)) corpus)"

text \<open>How often the token \<open>t\<close> comes right after an occurrence of \<open>key\<close>.\<close>

definition occurrences :: "pair_key \<Rightarrow> token \<Rightarrow> token list \<Rightarrow> nat" where
  "occurrences key t toks =
     length (filter (\<lambda>i. toks ! (i + 2) = t) (pair_positions key toks))"

definition corpus_occurrences :: "pair_key \<Rightarrow> token \<Rightarrow> string list \<Rightarrow> nat" where
  "corpus_occurrences key t corpus =
     sum_list (map (\<lambda>s. occurrences key t (str_split sp s)) corpus)"

text \<open>The successors stored under a key, and none for a key that is absent.\<close>

definition succ_of :: "distribution \<Rightarrow> pair_key \<Rightarrow> token list" where
  "succ_of d key = (case map_of d key of None \<Rightarrow> [] | Some ws \<Rightarrow> ws)"

text \<open>What makes an association list a dictionary of successor lists: no key twice, no
  empty list stored.\<close>

definition well_formed :: "distribution \<Rightarrow> bool" where
  "well_formed d = (distinct (map fst d) \<and> [] \<notin> snd ` set d)"

text \<open>The tokens of the songs of a corpus.\<close>

definition corpus_tokens :: "string list \<Rightarrow> token set" where
  "corpus_tokens corpus = (\<Union>s\<in>set corpus. set (str_split sp s))"

text \<open>Every key component and every successor of the dictionary lies in \<open>T\<close>.\<close>

definition dist_in :: "token set \<Rightarrow> distribution \<Rightarrow> bool" where
  "dist_in T d = (\<forall>((a, b), ws)\<in>set d. a \<in> T \<and> b \<in> T \<and> set ws \<subseteq> T)"

text \<open>The invariant of the loop of line 116: the pending tokens and the output lie in
  \<open>T\<close>, and a pending first token comes with a pending second token.\<close>

definition walk_inv :: "token set \<Rightarrow> walk_state \<Rightarrow> bool" where
  "walk_inv T st =
     ((\<forall>a. word1 st = Some a \<longrightarrow> a \<in> T \<and> word2 st \<noteq> None) \<and>
      (\<forall>b. word2 st = Some b \<longrightarrow> b \<in> T) \<and>
      set (song st) \<subseteq> Some ` T)"

section \<open>Strings: splitting, joining, replacing\<close>

lemma split_acc_not_Nil: "split_acc c acc s \<noteq> []"
  by (induction s arbitrary: acc) auto

lemma str_join_Cons: "xs \<noteq> [] \<Longrightarrow> str_join sep (x # xs) = x @ sep @ str_join sep xs"
  by (cases xs) auto

lemma join_split_acc: "str_join [c] (split_acc c acc s) = rev acc @ s"
  by (induction s arbitrary: acc) (auto simp: str_join_Cons split_acc_not_Nil)

lemma join_split: "str_join [c] (str_split c s) = s"
  by (simp add: str_split_def join_split_acc)

lemma split_acc_no_sep: "c \<notin> set acc \<Longrightarrow> \<forall>w\<in>set (split_acc c acc s). c \<notin> set w"
proof (induction s arbitrary: acc)
  case Nil
  then show ?case by simp
next
  case (Cons x xs)
  show ?case
  proof (cases "x = c")
    case True
    with Cons.prems Cons.IH [of "[]"] show ?thesis by simp
  next
    case False
    with Cons.prems Cons.IH [of "x # acc"] show ?thesis by simp
  qed
qed

lemma split_no_sep: "w \<in> set (str_split c s) \<Longrightarrow> c \<notin> set w"
  using split_acc_no_sep [of c "[]" s] by (simp add: str_split_def)

lemma str_replace_Nil: "old \<noteq> [] \<Longrightarrow> str_replace old new [] = []"
  by (simp add: str_replace.simps)

lemma str_replace_hit:
  "old \<noteq> [] \<Longrightarrow> str_replace old new (old @ s) = new @ str_replace old new s"
  by (subst str_replace.simps) simp

lemma str_replace_miss:
  "old \<noteq> [] \<Longrightarrow> \<not> prefix old (x # s) \<Longrightarrow>
   str_replace old new (x # s) = x # str_replace old new s"
  by (subst str_replace.simps) simp

lemma str_replace_absent: "old \<noteq> [] \<Longrightarrow> \<not> contains old s \<Longrightarrow> str_replace old new s = s"
  by (induction s) (auto simp: str_replace_Nil str_replace_miss)

text \<open>A line holds no line break, so the only occurrences of a line break followed by a
  space in the encoded text start at the separators.\<close>

lemma str_replace_skip:
  "nl \<notin> set l \<Longrightarrow> str_replace [nl, sp] [nl] (l @ s) = l @ str_replace [nl, sp] [nl] s"
  by (induction l) (auto simp: str_replace_miss)

lemma str_replace_line: "nl \<notin> set l \<Longrightarrow> str_replace [nl, sp] [nl] l = l"
  using str_replace_skip [of l "[]"] by (simp add: str_replace_Nil)

lemma replace_join:
  "\<forall>l\<in>set ls. nl \<notin> set l \<Longrightarrow>
   str_replace [nl, sp] [nl] (str_join [nl, sp] ls) = str_join [nl] ls"
proof (induction ls)
  case Nil
  then show ?case by (simp add: str_replace_Nil)
next
  case (Cons x ys)
  show ?case
  proof (cases ys)
    case Nil
    with Cons.prems show ?thesis by (simp add: str_replace_line)
  next
    case (Cons y zs)
    have "str_replace [nl, sp] [nl] ([nl, sp] @ str_join [nl, sp] ys)
          = [nl] @ str_replace [nl, sp] [nl] (str_join [nl, sp] ys)"
      by (rule str_replace_hit) simp
    with Cons.prems Cons.IH Cons show ?thesis by (simp add: str_replace_skip)
  qed
qed

lemma decode_Some: "decode (map Some ts) = Inr (str_replace [nl, sp] [nl] (str_join [sp] ts))"
  by (auto simp: decode_def comp_def)

section \<open>Encoding and decoding a lyric text\<close>

text \<open>Whatever the lines are, decoding the tokens gives the text with its doubled line
  breaks collapsed as on line 72, unless line 74 finds the licence sentinel.\<close>

lemma decode_tokenize_collapsed:
  assumes "last (lyric_lines text) \<noteq> sentinel"
  shows "decode (map Some (tokenize text)) = Inr (str_replace [nl, nl] [nl] text)"
proof -
  have enc: "encode_lyrics text = str_join [nl, sp] (lyric_lines text)"
    using assms by (simp add: encode_lyrics_def)
  have no_break: "\<forall>l\<in>set (lyric_lines text). nl \<notin> set l"
    by (auto simp: lyric_lines_def dest: split_no_sep)
  have "decode (map Some (tokenize text)) = Inr (str_replace [nl, sp] [nl] (encode_lyrics text))"
    by (simp add: decode_Some tokenize_def join_split)
  also have "\<dots> = Inr (str_join [nl] (lyric_lines text))"
    using no_break by (simp add: enc replace_join)
  also have "\<dots> = Inr (str_replace [nl, nl] [nl] text)"
    by (simp add: lyric_lines_def join_split)
  finally show ?thesis .
qed

text \<open>A doubled separator leaves an empty piece between its two characters.\<close>

lemma doubled_sep_empty_piece: "contains [c, c] s \<Longrightarrow> [] \<in> set (split_acc c acc s)"
proof (induction s arbitrary: acc)
  case Nil
  then show ?case by simp
next
  case (Cons x xs)
  show ?case
  proof (cases "prefix [c, c] (x # xs)")
    case True
    then obtain ys where "x = c" "xs = c # ys"
      by (cases xs) auto
    then show ?thesis by simp
  next
    case False
    from Cons.prems have "prefix [c, c] (x # xs) \<or> contains [c, c] xs"
      by (simp only: contains.simps)
    with False have "contains [c, c] xs"
      by blast
    then show ?thesis
      using Cons.IH [of "[]"] Cons.IH [of "x # acc"] by simp
  qed
qed

lemma no_empty_line_no_doubled_break:
  "\<not> list_ex space_only (str_split nl text) \<Longrightarrow> \<not> contains [nl, nl] text"
proof
  assume lines: "\<not> list_ex space_only (str_split nl text)" and "contains [nl, nl] text"
  from this(2) have "[] \<in> set (str_split nl text)"
    by (simp add: str_split_def doubled_sep_empty_piece)
  moreover have "space_only []"
    by (simp add: space_only_def)
  ultimately have "list_ex space_only (str_split nl text)"
    by (auto simp: list_ex_iff)
  with lines show False ..
qed

text \<open>
  C5. For every text that has no space-only line (a line all of whose characters are
  spaces, the empty line included) and whose last line is not the licence sentinel,
  decoding the tokens of the text gives back the text itself, hence its lines exactly.
\<close>

theorem decode_tokenize:
  assumes "\<not> list_ex space_only (str_split nl text)"
    and "last (str_split nl text) \<noteq> sentinel"
  shows "decode (map Some (tokenize text)) = Inr text"
proof -
  from assms(1) have "\<not> contains [nl, nl] text"
    by (rule no_empty_line_no_doubled_break)
  then have same: "str_replace [nl, nl] [nl] text = text"
    by (simp add: str_replace_absent)
  with assms(2) have "last (lyric_lines text) \<noteq> sentinel"
    by (simp add: lyric_lines_def)
  then have "decode (map Some (tokenize text)) = Inr (str_replace [nl, nl] [nl] text)"
    by (rule decode_tokenize_collapsed)
  with same show ?thesis by simp
qed

theorem decode_tokenize_witness:
  "\<not> list_ex space_only (str_split nl [CHR ''a'', nl, CHR ''b'', sp, CHR ''c'']) \<and>
   last (str_split nl [CHR ''a'', nl, CHR ''b'', sp, CHR ''c'']) \<noteq> sentinel \<and>
   tokenize [CHR ''a'', nl, CHR ''b'', sp, CHR ''c''] = [[CHR ''a'', nl], ''b'', ''c''] \<and>
   decode (map Some (tokenize [CHR ''a'', nl, CHR ''b'', sp, CHR ''c''])) =
     Inr [CHR ''a'', nl, CHR ''b'', sp, CHR ''c'']"
proof -
  have l: "\<not> list_ex space_only (str_split nl [CHR ''a'', nl, CHR ''b'', sp, CHR ''c''])"
    by code_simp
  have h: "last (str_split nl [CHR ''a'', nl, CHR ''b'', sp, CHR ''c'']) \<noteq> sentinel"
    by code_simp
  have t: "tokenize [CHR ''a'', nl, CHR ''b'', sp, CHR ''c''] = [[CHR ''a'', nl], ''b'', ''c'']"
    by code_simp
  from l h t decode_tokenize [OF l h] show ?thesis
    by (intro conjI)
qed

section \<open>The distribution built from a corpus\<close>

subsection \<open>What is stored under a key\<close>

lemma followers_short: "length toks < 3 \<Longrightarrow> followers key toks = []"
  by (simp add: followers_def pair_positions_def)

lemma pair_positions_Cons:
  "pair_positions key (a # b # c # ws) =
     (if (a, b) = key then [0] else []) @ map Suc (pair_positions key (b # c # ws))"
proof -
  have "[0..<Suc (length ws)] = 0 # map Suc [0..<length ws]"
    by (simp add: upt_conv_Cons map_Suc_upt del: upt_Suc)
  then show ?thesis
    by (simp add: pair_positions_def filter_map comp_def del: upt_Suc)
qed

lemma followers_Cons:
  "followers key (a # b # c # ws) =
     (if (a, b) = key then [c] else []) @ followers key (b # c # ws)"
  by (simp add: followers_def pair_positions_Cons comp_def)

lemma succ_of_dict_add:
  "succ_of (dict_add d key w) k = succ_of d k @ (if k = key then [w] else [])"
  by (induction d key w rule: dict_add.induct) (auto simp: succ_of_def)

lemma succ_of_add_words:
  "succ_of (add_words d p1 p2 ws) k = succ_of d k @ followers k (p1 # p2 # ws)"
proof (induction ws arbitrary: d p1 p2)
  case Nil
  then show ?case by (simp add: followers_short)
next
  case (Cons w ws)
  then show ?case by (simp add: succ_of_dict_add followers_Cons)
qed

lemma song_unfold: "3 \<le> length toks \<Longrightarrow> toks = toks ! 0 # toks ! 1 # drop 2 toks"
  by (cases toks; cases "tl toks") auto

lemma succ_of_add_songs:
  "succ_of (add_songs d corpus) k = succ_of d k @ corpus_followers k corpus"
proof (induction corpus arbitrary: d)
  case Nil
  then show ?case by (simp add: corpus_followers_def)
next
  case (Cons s corpus)
  show ?case
  proof (cases "length (str_split sp s) < 3")
    case True
    then show ?thesis
      using Cons.IH [of d] by (simp add: corpus_followers_def followers_short)
  next
    case False
    then have "str_split sp s = str_split sp s ! 0 # str_split sp s ! 1 # drop 2 (str_split sp s)"
      by (intro song_unfold) simp
    then have "followers k (str_split sp s ! 0 # str_split sp s ! 1 # drop 2 (str_split sp s))
        = followers k (str_split sp s)"
      by simp
    with False show ?thesis
      using Cons.IH [of "add_words d (str_split sp s ! 0) (str_split sp s ! 1) (drop 2 (str_split sp s))"]
      by (simp add: corpus_followers_def succ_of_add_words Let_def)
  qed
qed

lemma succ_of_Nil: "succ_of [] k = []"
  by (simp add: succ_of_def)

lemma succ_of_build: "succ_of (build_distribution corpus) k = corpus_followers k corpus"
  by (simp add: build_distribution_def succ_of_add_songs succ_of_Nil)

lemma keys_dict_add:
  "map fst (dict_add d key w) = (if key \<in> set (map fst d) then map fst d else map fst d @ [key])"
  by (induction d key w rule: dict_add.induct) auto

lemma snd_dict_add: "[] \<notin> snd ` set d \<Longrightarrow> [] \<notin> snd ` set (dict_add d key w)"
  by (induction d key w rule: dict_add.induct) auto

lemma well_formed_dict_add: "well_formed d \<Longrightarrow> well_formed (dict_add d key w)"
  by (simp add: well_formed_def keys_dict_add snd_dict_add)

lemma well_formed_add_words: "well_formed d \<Longrightarrow> well_formed (add_words d p1 p2 ws)"
  by (induction ws arbitrary: d p1 p2) (simp_all add: well_formed_dict_add)

lemma well_formed_add_songs: "well_formed d \<Longrightarrow> well_formed (add_songs d corpus)"
  by (induction corpus arbitrary: d) (simp_all add: well_formed_add_words Let_def)

lemma well_formed_Nil: "well_formed []"
  by (simp add: well_formed_def)

lemma well_formed_build: "well_formed (build_distribution corpus)"
  by (simp add: build_distribution_def well_formed_add_songs well_formed_Nil)

lemma well_formed_lookup:
  "well_formed d \<Longrightarrow> map_of d k = (if succ_of d k = [] then None else Some (succ_of d k))"
  by (cases "map_of d k") (auto simp: succ_of_def well_formed_def dest!: map_of_SomeD intro: rev_image_eqI)

lemma lookup_build:
  "map_of (build_distribution corpus) k =
     (if corpus_followers k corpus = [] then None else Some (corpus_followers k corpus))"
  using well_formed_lookup [OF well_formed_build, of corpus k] by (simp add: succ_of_build)

lemma keys_build:
  "k \<in> fst ` set (build_distribution corpus) \<longleftrightarrow> corpus_followers k corpus \<noteq> []"
proof -
  have "k \<in> fst ` set (build_distribution corpus) \<longleftrightarrow>
      map_of (build_distribution corpus) k \<noteq> None"
    by (simp add: map_of_eq_None_iff)
  then show ?thesis by (simp add: lookup_build)
qed

lemma count_list_map: "count_list (map f xs) t = length (filter (\<lambda>x. f x = t) xs)"
  by (induction xs) auto

lemma count_list_concat: "count_list (concat xss) t = sum_list (map (\<lambda>xs. count_list xs t) xss)"
  by (induction xss) auto

lemma count_followers: "count_list (followers key toks) t = occurrences key t toks"
  by (simp add: followers_def occurrences_def count_list_map)

lemma count_corpus_followers:
  "count_list (corpus_followers key corpus) t = corpus_occurrences key t corpus"
  by (simp add: corpus_followers_def corpus_occurrences_def count_list_concat comp_def
      count_followers)

lemma followers_position:
  "followers key toks \<noteq> [] \<Longrightarrow>
   \<exists>i. i + 2 < length toks \<and> (toks ! i, toks ! (i + 1)) = key"
proof -
  assume "followers key toks \<noteq> []"
  then have "pair_positions key toks \<noteq> []"
    by (simp add: followers_def)
  then obtain i where "i \<in> set (pair_positions key toks)"
    by (cases "pair_positions key toks") auto
  then have "i + 2 < length toks \<and> (toks ! i, toks ! (i + 1)) = key"
    by (auto simp: pair_positions_def)
  then show ?thesis ..
qed

lemma add_songs_filter: "add_songs d (filter (\<lambda>s. \<not> short_song s) corpus) = add_songs d corpus"
  by (induction corpus arbitrary: d) (simp_all add: short_song_def Let_def)

lemma dict_add_not_Nil: "dict_add d key w \<noteq> []"
  by (induction d key w rule: dict_add.induct) auto

lemma add_words_not_Nil: "d \<noteq> [] \<or> ws \<noteq> [] \<Longrightarrow> add_words d p1 p2 ws \<noteq> []"
  by (induction ws arbitrary: d p1 p2) (auto simp: dict_add_not_Nil)

lemma add_songs_not_Nil: "d \<noteq> [] \<Longrightarrow> add_songs d corpus \<noteq> []"
  by (induction corpus arbitrary: d) (auto simp: Let_def add_words_not_Nil)

subsection \<open>The invariants of the data model\<close>

text \<open>
  C6. For every corpus the built distribution satisfies the three invariants: every key
  is a pair of tokens that stand side by side in one song of the corpus with at least one
  more token of that song after them; the songs of fewer than three tokens contribute
  nothing (the distribution is the one built from the corpus without them); and every
  successor list stored is non-empty.
\<close>

theorem distribution_invariants:
  "(\<forall>key\<in>set (map fst (build_distribution corpus)).
      \<exists>s\<in>set corpus. \<exists>i. i + 2 < length (str_split sp s) \<and>
        (str_split sp s ! i, str_split sp s ! (i + 1)) = key) \<and>
   build_distribution (filter (\<lambda>s. \<not> short_song s) corpus) = build_distribution corpus \<and>
   (\<forall>(key, ws)\<in>set (build_distribution corpus). ws \<noteq> [])"
proof (intro conjI ballI)
  fix key
  assume "key \<in> set (map fst (build_distribution corpus))"
  then have "corpus_followers key corpus \<noteq> []"
    by (simp add: keys_build)
  then obtain s where s: "s \<in> set corpus" "followers key (str_split sp s) \<noteq> []"
    by (auto simp: corpus_followers_def)
  from followers_position [OF s(2)] s(1)
  show "\<exists>s\<in>set corpus. \<exists>i. i + 2 < length (str_split sp s) \<and>
        (str_split sp s ! i, str_split sp s ! (i + 1)) = key"
    by blast
next
  show "build_distribution (filter (\<lambda>s. \<not> short_song s) corpus) = build_distribution corpus"
    by (simp add: build_distribution_def add_songs_filter)
next
  fix x
  assume "x \<in> set (build_distribution corpus)"
  with well_formed_build [of corpus] show "case x of (key, ws) \<Rightarrow> ws \<noteq> []"
    by (force simp: well_formed_def)
qed

theorem distribution_invariants_witness:
  "(''a'', ''b'') \<in> set (map fst (build_distribution [''a b c'', ''x y''])) \<and>
   (\<exists>s\<in>set [''a b c'', ''x y'']. \<exists>i. i + 2 < length (str_split sp s) \<and>
        (str_split sp s ! i, str_split sp s ! (i + 1)) = (''a'', ''b'')) \<and>
   filter (\<lambda>s. \<not> short_song s) [''a b c'', ''x y''] = [''a b c''] \<and>
   build_distribution [''a b c''] = build_distribution [''a b c'', ''x y''] \<and>
   ((''a'', ''b''), [''c'']) \<in> set (build_distribution [''a b c'', ''x y'']) \<and>
   [''c''] \<noteq> ([] :: token list)"
proof -
  have k: "(''a'', ''b'') \<in> set (map fst (build_distribution [''a b c'', ''x y'']))"
    by code_simp
  have f: "filter (\<lambda>s. \<not> short_song s) [''a b c'', ''x y''] = [''a b c'']"
    by code_simp
  have m: "((''a'', ''b''), [''c'']) \<in> set (build_distribution [''a b c'', ''x y''])"
    by code_simp
  note inv = distribution_invariants [of "[''a b c'', ''x y'']"]
  from inv k have "\<exists>s\<in>set [''a b c'', ''x y'']. \<exists>i. i + 2 < length (str_split sp s) \<and>
        (str_split sp s ! i, str_split sp s ! (i + 1)) = (''a'', ''b'')"
    by blast
  moreover from inv f have "build_distribution [''a b c''] = build_distribution [''a b c'', ''x y'']"
    by simp
  moreover from inv m have "[''c''] \<noteq> ([] :: token list)"
    by blast
  ultimately show ?thesis using k f m by blast
qed

text \<open>
  C7. For every non-empty corpus whose songs all split into at least three tokens, the
  built distribution has at least one key.
\<close>

theorem distribution_not_empty:
  assumes "corpus \<noteq> []" and "\<forall>s\<in>set corpus. 3 \<le> length (str_split sp s)"
  shows "build_distribution corpus \<noteq> []"
proof -
  from assms(1) obtain s rest where c: "corpus = s # rest"
    by (cases corpus) auto
  with assms(2) have len: "3 \<le> length (str_split sp s)"
    by simp
  then have "drop 2 (str_split sp s) \<noteq> []"
    by simp
  then have "add_words [] (str_split sp s ! 0) (str_split sp s ! 1) (drop 2 (str_split sp s)) \<noteq> []"
    by (intro add_words_not_Nil) simp
  with len show ?thesis
    by (simp add: build_distribution_def c Let_def add_songs_not_Nil)
qed

theorem distribution_not_empty_witness:
  "[''a b c'', ''d e f g''] \<noteq> [] \<and>
   3 \<le> length (str_split sp ''a b c'') \<and> 3 \<le> length (str_split sp ''d e f g'') \<and>
   build_distribution [''a b c'', ''d e f g''] \<noteq> []"
proof -
  have l: "3 \<le> length (str_split sp ''a b c'')" "3 \<le> length (str_split sp ''d e f g'')"
    by code_simp+
  then have "\<forall>s\<in>set [''a b c'', ''d e f g'']. 3 \<le> length (str_split sp s)"
    by simp
  from distribution_not_empty [OF _ this] l show ?thesis by simp
qed

text \<open>
  C8. For every corpus and every key of the built distribution, the successor list stored
  under the key is the list of the tokens that follow the pair, in the order of the songs
  and of the positions in a song (the insertion order), and a token occurs in it as often
  as it follows the pair in the corpus.
\<close>

theorem successors_in_order:
  assumes "key \<in> set (map fst (build_distribution corpus))"
  shows "\<exists>ws. map_of (build_distribution corpus) key = Some ws \<and>
           ws = corpus_followers key corpus \<and>
           count_list ws t = corpus_occurrences key t corpus"
  using assms by (simp add: keys_build lookup_build count_corpus_followers)

theorem successors_in_order_witness:
  "(''a'', ''b'') \<in> set (map fst (build_distribution [''a b c a b d a b c'', ''a b'', ''x a b c''])) \<and>
   map_of (build_distribution [''a b c a b d a b c'', ''a b'', ''x a b c'']) (''a'', ''b'') =
     Some [''c'', ''d'', ''c'', ''c''] \<and>
   count_list [''c'', ''d'', ''c'', ''c''] ''c'' = 3 \<and>
   corpus_occurrences (''a'', ''b'') ''c'' [''a b c a b d a b c'', ''a b'', ''x a b c''] = 3"
proof -
  have k: "(''a'', ''b'') \<in> set (map fst (build_distribution [''a b c a b d a b c'', ''a b'', ''x a b c'']))"
    by code_simp
  have f: "corpus_followers (''a'', ''b'') [''a b c a b d a b c'', ''a b'', ''x a b c''] =
      [''c'', ''d'', ''c'', ''c'']"
    by code_simp
  from successors_in_order [OF k, of "''c''"] f
  have "map_of (build_distribution [''a b c a b d a b c'', ''a b'', ''x a b c'']) (''a'', ''b'') =
     Some [''c'', ''d'', ''c'', ''c''] \<and>
     count_list [''c'', ''d'', ''c'', ''c''] ''c'' =
       corpus_occurrences (''a'', ''b'') ''c'' [''a b c a b d a b c'', ''a b'', ''x a b c'']"
    by auto
  moreover have "count_list [''c'', ''d'', ''c'', ''c''] ''c'' = 3"
    by code_simp
  ultimately show ?thesis using k by simp
qed

section \<open>The walk on the two scenarios of the specification\<close>

lemma pick_start_pending: "word1 st \<noteq> None \<Longrightarrow> pick_start rnd ps st = Inr st"
  by (auto simp: pick_start_def)

text \<open>
  C4. Scenario A: the song \<open>a b c d e\<close> gives the distribution with the keys \<open>(a,b)\<close>,
  \<open>(b,c)\<close>, \<open>(c,d)\<close>; when the first draw selects the key \<open>(a,b)\<close> (index 0 of three
  keys), the walk for \<open>word_count = 4\<close> emits exactly \<open>a b c e\<close> and takes no dead end,
  whatever the other draws are.
\<close>

theorem scenario_A_walk:
  assumes "rnd 0 mod 3 = 0"
  shows "build_distribution [''a b c d e''] = scenario_A \<and>
   chain_walk rnd scenario_A 4 = Inr [Some ''a'', Some ''b'', Some ''c'', Some ''e''] \<and>
   dead_ends rnd scenario_A 3 init_state = 0"
proof -
  have build: "build_distribution [''a b c d e''] = scenario_A"
    by code_simp
  have g1: "map_of scenario_A (''a'', ''b'') = Some [''c'']"
    and g2: "map_of scenario_A (''b'', ''c'') = Some [''d'']"
    and g3: "map_of scenario_A (''c'', ''d'') = Some [''e'']"
    by (simp_all add: scenario_A_def)
  have p1: "pick_start rnd (map fst scenario_A) init_state =
      Inr \<lparr>word1 = Some ''a'', word2 = Some ''b'', song = [], draws = Suc 0\<rparr>"
    using assms by (simp add: pick_start_def random_choice_def init_state_def scenario_A_def)
  have a1: "advance rnd scenario_A
        \<lparr>word1 = Some ''a'', word2 = Some ''b'', song = [], draws = Suc 0\<rparr> =
      Inr \<lparr>word1 = Some ''b'', word2 = Some ''c'', song = [Some ''a''], draws = Suc (Suc 0)\<rparr>"
    by (simp add: advance_def random_choice_def g1)
  have a2: "advance rnd scenario_A
        \<lparr>word1 = Some ''b'', word2 = Some ''c'', song = [Some ''a''], draws = Suc (Suc 0)\<rparr> =
      Inr \<lparr>word1 = Some ''c'', word2 = Some ''d'', song = [Some ''a'', Some ''b''],
           draws = Suc (Suc (Suc 0))\<rparr>"
    by (simp add: advance_def random_choice_def g2)
  have a3: "advance rnd scenario_A
        \<lparr>word1 = Some ''c'', word2 = Some ''d'', song = [Some ''a'', Some ''b''],
           draws = Suc (Suc (Suc 0))\<rparr> =
      Inr \<lparr>word1 = Some ''d'', word2 = Some ''e'', song = [Some ''a'', Some ''b'', Some ''c''],
           draws = Suc (Suc (Suc (Suc 0)))\<rparr>"
    by (simp add: advance_def random_choice_def g3)
  have loop: "walk_loop rnd scenario_A (Suc (Suc (Suc 0))) init_state =
      Inr \<lparr>word1 = Some ''d'', word2 = Some ''e'', song = [Some ''a'', Some ''b'', Some ''c''],
           draws = Suc (Suc (Suc (Suc 0)))\<rparr>"
    by (simp add: walk_step_def p1 a1 a2 a3 pick_start_pending)
  have loop3: "walk_loop rnd scenario_A 3 init_state =
      Inr \<lparr>word1 = Some ''d'', word2 = Some ''e'', song = [Some ''a'', Some ''b'', Some ''c''],
           draws = Suc (Suc (Suc (Suc 0)))\<rparr>"
    using loop by (simp only: numeral_3_eq_3)
  have walk: "chain_walk rnd scenario_A 4 = Inr [Some ''a'', Some ''b'', Some ''c'', Some ''e'']"
    by (simp add: chain_walk_def loop3)
  have dead: "dead_ends rnd scenario_A (Suc (Suc (Suc 0))) init_state = 0"
    by (simp add: p1 a1 a2 a3 pick_start_pending g1 g2 g3)
  then have dead3: "dead_ends rnd scenario_A 3 init_state = 0"
    by (simp only: numeral_3_eq_3)
  from build walk dead3 show ?thesis by simp
qed

theorem scenario_A_walk_witness:
  "always_first 0 mod 3 = 0 \<and>
   chain_walk always_first (build_distribution [''a b c d e'']) 4 =
     Inr [Some ''a'', Some ''b'', Some ''c'', Some ''e'']"
  using scenario_A_walk [of always_first] by (simp add: always_first_def)

text \<open>
  C3. Scenario B: the songs \<open>a b c\<close> and \<open>a b d\<close> give the distribution with the one
  key \<open>(a,b)\<close> and the successors \<open>c, d\<close>; when the second draw selects the successor
  \<open>c\<close> (index 0 of two), the walk for \<open>word_count = 3\<close> emits exactly \<open>a b c c\<close>.
  After the two iterations \<open>word1\<close> is \<^verbatim>\<open>None\<close> and \<open>word2\<close> still holds \<open>c\<close>, which
  line 131 appends once more; one iteration took the dead end.
\<close>

theorem scenario_B_walk:
  assumes "rnd 1 mod 2 = 0"
  shows "build_distribution [''a b c'', ''a b d''] = scenario_B \<and>
   walk_loop rnd scenario_B 2 init_state =
     Inr \<lparr>word1 = None, word2 = Some ''c'', song = [Some ''a'', Some ''b'', Some ''c''],
          draws = 2\<rparr> \<and>
   chain_walk rnd scenario_B 3 = Inr [Some ''a'', Some ''b'', Some ''c'', Some ''c''] \<and>
   dead_ends rnd scenario_B 2 init_state = 1"
proof -
  from assms have r: "rnd (Suc 0) mod Suc (Suc 0) = 0"
    by (simp add: numeral_2_eq_2)
  have build: "build_distribution [''a b c'', ''a b d''] = scenario_B"
    by code_simp
  have g1: "map_of scenario_B (''a'', ''b'') = Some [''c'', ''d'']"
    and g2: "map_of scenario_B (''b'', ''c'') = None"
    by (simp_all add: scenario_B_def)
  have p1: "pick_start rnd (map fst scenario_B) init_state =
      Inr \<lparr>word1 = Some ''a'', word2 = Some ''b'', song = [], draws = Suc 0\<rparr>"
    by (simp add: pick_start_def random_choice_def init_state_def scenario_B_def)
  have a1: "advance rnd scenario_B
        \<lparr>word1 = Some ''a'', word2 = Some ''b'', song = [], draws = Suc 0\<rparr> =
      Inr \<lparr>word1 = Some ''b'', word2 = Some ''c'', song = [Some ''a''], draws = Suc (Suc 0)\<rparr>"
    by (simp add: advance_def random_choice_def scenario_B_def r)
  have a2: "advance rnd scenario_B
        \<lparr>word1 = Some ''b'', word2 = Some ''c'', song = [Some ''a''], draws = Suc (Suc 0)\<rparr> =
      Inr \<lparr>word1 = None, word2 = Some ''c'', song = [Some ''a'', Some ''b'', Some ''c''],
           draws = Suc (Suc 0)\<rparr>"
    by (simp add: advance_def g2)
  have loop: "walk_loop rnd scenario_B (Suc (Suc 0)) init_state =
      Inr \<lparr>word1 = None, word2 = Some ''c'', song = [Some ''a'', Some ''b'', Some ''c''],
           draws = Suc (Suc 0)\<rparr>"
    by (simp add: walk_step_def p1 a1 a2 pick_start_pending)
  have walk: "chain_walk rnd scenario_B 3 = Inr [Some ''a'', Some ''b'', Some ''c'', Some ''c'']"
    using loop by (simp add: chain_walk_def numeral_2_eq_2)
  have dead: "dead_ends rnd scenario_B (Suc (Suc 0)) init_state = 1"
    by (simp add: p1 a1 a2 pick_start_pending g1 g2)
  from build loop walk dead show ?thesis by (simp add: numeral_2_eq_2)
qed

theorem scenario_B_walk_witness:
  "always_first 1 mod 2 = 0 \<and>
   chain_walk always_first (build_distribution [''a b c'', ''a b d'']) 3 =
     Inr [Some ''a'', Some ''b'', Some ''c'', Some ''c'']"
  using scenario_B_walk [of always_first] by (simp add: always_first_def)

section \<open>The walk in general\<close>

subsection \<open>Which errors a step can raise\<close>

lemma random_choice_error: "random_choice rnd n xs = Inl e \<Longrightarrow> e = IndexError"
  by (simp add: random_choice_def split: if_splits)

lemma random_choice_mem: "random_choice rnd n xs = Inr x \<Longrightarrow> x \<in> set xs"
  by (auto simp: random_choice_def split: if_splits)

lemma random_choice_ok: "xs \<noteq> [] \<Longrightarrow> \<exists>x. random_choice rnd n xs = Inr x"
  by (simp add: random_choice_def)

lemma pick_start_error: "pick_start rnd ps st = Inl e \<Longrightarrow> e = IndexError"
  by (auto simp: pick_start_def split: if_splits sum.splits dest: random_choice_error)

lemma advance_error: "advance rnd d st = Inl e \<Longrightarrow> e = IndexError"
  by (auto simp: advance_def Let_def split: option.splits sum.splits dest: random_choice_error)

lemma walk_step_error: "walk_step rnd d st = Inl e \<Longrightarrow> e = IndexError"
  by (auto simp: walk_step_def split: sum.splits dest: pick_start_error advance_error)

lemma walk_loop_error: "walk_loop rnd d n st = Inl e \<Longrightarrow> e = IndexError"
  by (induction n arbitrary: st) (auto split: sum.splits dest: walk_step_error)

lemma chain_walk_error: "chain_walk rnd d wc = Inl e \<Longrightarrow> e = IndexError"
  by (auto simp: chain_walk_def split: sum.splits dest: walk_loop_error)

lemma decode_error: "decode toks = Inl e \<Longrightarrow> e = TypeError"
  by (simp add: decode_def split: if_splits)

lemma generate_song_error: "generate_song rnd corpus wc = Inl e \<Longrightarrow> e = IndexError \<or> e = TypeError"
  by (auto simp: generate_song_def split: sum.splits dest: chain_walk_error decode_error)

subsection \<open>The length of the output\<close>

lemma dict_get_Some:
  "dict_get d x y = Some ws \<Longrightarrow> \<exists>a b. x = Some a \<and> y = Some b \<and> ((a, b), ws) \<in> set d"
  by (cases x; cases y) (auto dest: map_of_SomeD)

lemma pick_start_song: "pick_start rnd ps st = Inr st1 \<Longrightarrow> song st1 = song st"
  by (auto simp: pick_start_def split: if_splits sum.splits)

lemma pick_start_ok: "ps \<noteq> [] \<Longrightarrow> \<exists>st1. pick_start rnd ps st = Inr st1"
  by (auto simp: pick_start_def random_choice_def split: prod.splits)

lemma advance_ok:
  assumes "\<forall>(key, ws)\<in>set d. ws \<noteq> []"
  shows "\<exists>st2. advance rnd d st1 = Inr st2 \<and>
           length (song st2) =
             length (song st1) + 1 + (if dict_get d (word1 st1) (word2 st1) = None then 1 else 0)"
proof (cases "dict_get d (word1 st1) (word2 st1)")
  case None
  then show ?thesis by (simp add: advance_def)
next
  case (Some ws)
  with assms have "ws \<noteq> []"
    by (auto dest!: dict_get_Some)
  with Some show ?thesis
    by (simp add: advance_def random_choice_def)
qed

lemma walk_loop_length:
  assumes "d \<noteq> []" and "\<forall>(key, ws)\<in>set d. ws \<noteq> []"
  shows "\<exists>st'. walk_loop rnd d n st = Inr st' \<and>
           length (song st') = length (song st) + n + dead_ends rnd d n st"
proof (induction n arbitrary: st)
  case 0
  then show ?case by simp
next
  case (Suc n)
  from assms(1) obtain st1 where p: "pick_start rnd (map fst d) st = Inr st1"
    using pick_start_ok [of "map fst d" rnd st] by auto
  from advance_ok [OF assms(2), of rnd st1] obtain st2
    where a: "advance rnd d st1 = Inr st2"
      and l: "length (song st2) =
        length (song st1) + 1 + (if dict_get d (word1 st1) (word2 st1) = None then 1 else 0)"
    by blast
  from Suc.IH [of st2] obtain st' where w: "walk_loop rnd d n st2 = Inr st'"
    and l': "length (song st') = length (song st2) + n + dead_ends rnd d n st2"
    by blast
  from p a w l l' pick_start_song [OF p] show ?case
    by (simp add: walk_step_def)
qed

text \<open>
  C2. For every non-empty distribution (a dictionary that stores no empty successor list,
  as the data model requires) and every \<open>word_count\<close> of at least 1, the walk returns a
  sequence, and its length is \<open>word_count\<close> plus the number of iterations that took the
  dead-end branch of lines 125 to 129, for every random source.
\<close>

theorem walk_length:
  assumes "d \<noteq> []" and "\<forall>(key, ws)\<in>set d. ws \<noteq> []" and "1 \<le> word_count"
  shows "\<exists>out. chain_walk rnd d word_count = Inr out \<and>
           length out = nat word_count + dead_ends rnd d (nat (word_count - 1)) init_state"
proof -
  from walk_loop_length [OF assms(1,2), of rnd "nat (word_count - 1)" init_state]
  obtain st' where w: "walk_loop rnd d (nat (word_count - 1)) init_state = Inr st'"
    and l: "length (song st') =
      length (song init_state) + nat (word_count - 1) +
      dead_ends rnd d (nat (word_count - 1)) init_state"
    by blast
  from assms(3) have "Suc (nat (word_count - 1)) = nat word_count"
    by simp
  with w l show ?thesis
    by (simp add: chain_walk_def init_state_def)
qed

theorem walk_length_witness:
  "scenario_B \<noteq> [] \<and> (1::int) \<le> 3 \<and>
   dead_ends always_first scenario_B (nat (3 - 1)) init_state = 1 \<and>
   (\<exists>out. chain_walk always_first scenario_B 3 = Inr out \<and> length out = nat 3 + 1)"
proof -
  have n: "scenario_B \<noteq> []"
    by (simp add: scenario_B_def)
  have s: "\<forall>(key, ws)\<in>set scenario_B. ws \<noteq> []"
    by (simp add: scenario_B_def)
  have e: "dead_ends always_first scenario_B (nat (3 - 1)) init_state = 1"
    by code_simp
  from walk_length [OF n s, of 3 always_first] e n show ?thesis
    by simp
qed

subsection \<open>Where the output tokens come from\<close>

lemma pick_start_inv:
  assumes "dist_in T d" and "walk_inv T st" and "pick_start rnd (map fst d) st = Inr st1"
  shows "walk_inv T st1 \<and> word1 st1 \<noteq> None"
proof (cases "word1 st")
  case None
  with assms(3) obtain a b where c: "random_choice rnd (draws st) (map fst d) = Inr (a, b)"
    and st1: "st1 = st\<lparr>word1 := Some a, word2 := Some b, draws := Suc (draws st)\<rparr>"
    by (auto simp: pick_start_def split: sum.splits)
  from random_choice_mem [OF c] obtain ws where "((a, b), ws) \<in> set d"
    by auto
  with assms(1) have "a \<in> T" "b \<in> T"
    by (auto simp: dist_in_def)
  with assms(2) st1 show ?thesis
    by (simp add: walk_inv_def)
next
  case (Some a)
  with assms(3) have "st1 = st"
    by (simp add: pick_start_def)
  with assms(2) Some show ?thesis by simp
qed

lemma advance_inv:
  assumes "dist_in T d" and "walk_inv T st" and "word1 st \<noteq> None"
    and "advance rnd d st = Inr st2"
  shows "walk_inv T st2 \<and> word2 st2 \<noteq> None"
proof -
  from assms(2,3) obtain a b where ab: "word1 st = Some a" "word2 st = Some b" "a \<in> T" "b \<in> T"
    by (auto simp: walk_inv_def)
  show ?thesis
  proof (cases "map_of d (a, b)")
    case None
    with assms(4) ab have "st2 = st\<lparr>song := song st @ [Some a, Some b], word1 := None\<rparr>"
      by (simp add: advance_def)
    with assms(2) ab show ?thesis
      by (simp add: walk_inv_def)
  next
    case (Some ws)
    with assms(4) ab obtain w where c: "random_choice rnd (draws st) ws = Inr w"
      and st2: "st2 = st\<lparr>song := song st @ [Some a], word1 := Some b, word2 := Some w,
                        draws := Suc (draws st)\<rparr>"
      by (auto simp: advance_def Let_def split: sum.splits)
    from Some have "((a, b), ws) \<in> set d"
      by (rule map_of_SomeD)
    with assms(1) random_choice_mem [OF c] have "w \<in> T"
      by (auto simp: dist_in_def)
    with assms(2) ab st2 show ?thesis
      by (simp add: walk_inv_def)
  qed
qed

lemma walk_step_inv:
  assumes "dist_in T d" and "walk_inv T st" and "walk_step rnd d st = Inr st'"
  shows "walk_inv T st' \<and> word2 st' \<noteq> None"
proof -
  from assms(3) obtain st1 where p: "pick_start rnd (map fst d) st = Inr st1"
    and a: "advance rnd d st1 = Inr st'"
    by (auto simp: walk_step_def split: sum.splits)
  from pick_start_inv [OF assms(1,2) p] have "walk_inv T st1" "word1 st1 \<noteq> None"
    by simp_all
  then show ?thesis
    using advance_inv [OF assms(1) _ _ a] by simp
qed

lemma walk_loop_inv:
  assumes "dist_in T d"
  shows "walk_inv T st \<Longrightarrow> walk_loop rnd d n st = Inr st' \<Longrightarrow>
         walk_inv T st' \<and> (0 < n \<or> word2 st \<noteq> None \<longrightarrow> word2 st' \<noteq> None)"
proof (induction n arbitrary: st)
  case 0
  then show ?case by simp
next
  case (Suc n)
  from Suc.prems(2) obtain st1 where s: "walk_step rnd d st = Inr st1"
    and w: "walk_loop rnd d n st1 = Inr st'"
    by (auto split: sum.splits)
  from walk_step_inv [OF assms Suc.prems(1) s] have "walk_inv T st1" "word2 st1 \<noteq> None"
    by simp_all
  with Suc.IH [OF _ w] show ?case by simp
qed

lemma walk_inv_init: "walk_inv T init_state"
  by (simp add: walk_inv_def init_state_def)

lemma chain_walk_tokens:
  assumes "dist_in T d" and "2 \<le> wc" and "chain_walk rnd d wc = Inr out"
  shows "set out \<subseteq> Some ` T"
proof -
  from assms(3) obtain st' where w: "walk_loop rnd d (nat (wc - 1)) init_state = Inr st'"
    and out: "out = song st' @ [word2 st']"
    by (auto simp: chain_walk_def split: sum.splits)
  from assms(2) have "0 < nat (wc - 1)"
    by simp
  with walk_loop_inv [OF assms(1) walk_inv_init w] have "walk_inv T st'" "word2 st' \<noteq> None"
    by simp_all
  with out show ?thesis
    by (auto simp: walk_inv_def)
qed

lemma followers_tokens: "set (followers key toks) \<subseteq> set toks"
  by (auto simp: followers_def pair_positions_def)

lemma corpus_followers_tokens: "set (corpus_followers key corpus) \<subseteq> corpus_tokens corpus"
  using followers_tokens by (fastforce simp: corpus_followers_def corpus_tokens_def)

lemma build_dist_in: "dist_in (corpus_tokens corpus) (build_distribution corpus)"
proof -
  have "a \<in> corpus_tokens corpus \<and> b \<in> corpus_tokens corpus \<and> set ws \<subseteq> corpus_tokens corpus"
    if m: "((a, b), ws) \<in> set (build_distribution corpus)" for a b ws
  proof -
    from m have k: "(a, b) \<in> fst ` set (build_distribution corpus)"
      by force
    then have ne: "corpus_followers (a, b) corpus \<noteq> []"
      by (simp add: keys_build)
    then obtain s where s: "s \<in> set corpus" "followers (a, b) (str_split sp s) \<noteq> []"
      by (auto simp: corpus_followers_def)
    from followers_position [OF s(2)] obtain i where i: "i + 2 < length (str_split sp s)"
      "str_split sp s ! i = a" "str_split sp s ! (i + 1) = b"
      by auto
    from i(1) have "str_split sp s ! i \<in> set (str_split sp s)"
      "str_split sp s ! (i + 1) \<in> set (str_split sp s)"
      by simp_all
    with i s(1) have ab: "a \<in> corpus_tokens corpus" "b \<in> corpus_tokens corpus"
      by (auto simp: corpus_tokens_def)
    from well_formed_build [of corpus] m have "map_of (build_distribution corpus) (a, b) = Some ws"
      by (simp add: well_formed_def)
    with ne have "ws = corpus_followers (a, b) corpus"
      by (simp add: lookup_build)
    with corpus_followers_tokens [of "(a, b)" corpus] ab show ?thesis
      by simp
  qed
  then show ?thesis
    by (auto simp: dist_in_def)
qed

text \<open>
  C10. For every corpus and every \<open>word_count\<close> of at least 2 for which
  \<^verbatim>\<open>generate_song\<close> returns a text, the text is the decoding of the sequence the walk
  produced, and every item of that sequence is a token of the space-split form of some
  song of the corpus (and never \<^verbatim>\<open>None\<close>).
\<close>

theorem output_tokens_from_corpus:
  assumes "2 \<le> word_count" and "generate_song rnd corpus word_count = Inr text"
  shows "\<exists>out. chain_walk rnd (build_distribution corpus) word_count = Inr out \<and>
           decode out = Inr text \<and>
           (\<forall>x\<in>set out. \<exists>s\<in>set corpus. \<exists>w\<in>set (str_split sp s). x = Some w)"
proof -
  from assms(2) obtain out where c: "chain_walk rnd (build_distribution corpus) word_count = Inr out"
    and d: "decode out = Inr text"
    by (auto simp: generate_song_def split: sum.splits)
  from chain_walk_tokens [OF build_dist_in assms(1) c]
  have "\<forall>x\<in>set out. \<exists>s\<in>set corpus. \<exists>w\<in>set (str_split sp s). x = Some w"
    by (fastforce simp: corpus_tokens_def)
  with c d show ?thesis by blast
qed

theorem output_tokens_from_corpus_witness:
  "(2::int) \<le> 3 \<and>
   generate_song always_first [''a b c'', ''a b d''] 3 = Inr ''a b c c'' \<and>
   (\<exists>out. chain_walk always_first (build_distribution [''a b c'', ''a b d'']) 3 = Inr out \<and>
      decode out = Inr ''a b c c'' \<and>
      (\<forall>x\<in>set out. \<exists>s\<in>set [''a b c'', ''a b d'']. \<exists>w\<in>set (str_split sp s). x = Some w))"
proof -
  have h: "(2::int) \<le> 3"
    by simp
  have g: "generate_song always_first [''a b c'', ''a b d''] 3 = Inr ''a b c c''"
    by code_simp
  from h g output_tokens_from_corpus [OF h g] show ?thesis
    by (intro conjI)
qed

section \<open>Failures of \<^verbatim>\<open>generate_song\<close>\<close>

lemma add_songs_short: "\<forall>s\<in>set corpus. short_song s \<Longrightarrow> add_songs d corpus = d"
  by (induction corpus) (simp_all add: short_song_def)

lemma walk_step_empty: "walk_step rnd [] init_state = Inl IndexError"
  by (simp add: walk_step_def pick_start_def random_choice_def init_state_def)

lemma chain_walk_empty: "2 \<le> wc \<Longrightarrow> chain_walk rnd [] wc = Inl IndexError"
proof -
  assume "2 \<le> wc"
  then obtain m where "nat (wc - 1) = Suc m"
    by (cases "nat (wc - 1)") auto
  then show ?thesis
    by (simp add: chain_walk_def walk_step_empty)
qed

lemma chain_walk_no_loop: "wc \<le> 1 \<Longrightarrow> chain_walk rnd d wc = Inr [None]"
  by (simp add: chain_walk_def init_state_def)

text \<open>
  C1, as amended. The claim promises a \<open>GenerationError\<close> raised before the loop;
  \<^verbatim>\<open>parrot.py\<close> has no such exception and no check of the key list. What holds: for
  every corpus whose songs all split into fewer than three tokens (the empty corpus
  included) the distribution has no keys, the first iteration of the loop fails with the
  \<^verbatim>\<open>IndexError\<close> of \<^verbatim>\<open>random.choice\<close> on line 118, and \<^verbatim>\<open>generate_song\<close> fails with
  \<^verbatim>\<open>IndexError\<close> when \<open>word_count\<close> is at least 2 and with the \<^verbatim>\<open>TypeError\<close> of line
  133 when it is at most 1 (the loop is not entered); for no corpus is the failure a
  \<open>GenerationError\<close>.
\<close>

theorem empty_distribution_fails:
  "((\<forall>s\<in>set corpus. short_song s) \<longrightarrow>
      build_distribution corpus = [] \<and>
      walk_step rnd (build_distribution corpus) init_state = Inl IndexError \<and>
      generate_song rnd corpus wc = Inl (if 2 \<le> wc then IndexError else TypeError)) \<and>
   generate_song rnd corpus wc \<noteq> Inl GenerationError"
proof (intro conjI impI)
  assume short: "\<forall>s\<in>set corpus. short_song s"
  then show empty: "build_distribution corpus = []"
    by (simp add: build_distribution_def add_songs_short)
  then show "walk_step rnd (build_distribution corpus) init_state = Inl IndexError"
    by (simp add: walk_step_empty)
  show "generate_song rnd corpus wc = Inl (if 2 \<le> wc then IndexError else TypeError)"
  proof (cases "2 \<le> wc")
    case True
    then show ?thesis by (simp add: generate_song_def empty chain_walk_empty)
  next
    case False
    then show ?thesis by (simp add: generate_song_def chain_walk_no_loop decode_def)
  qed
next
  show "generate_song rnd corpus wc \<noteq> Inl GenerationError"
    using generate_song_error [of rnd corpus wc GenerationError] by auto
qed

theorem empty_distribution_fails_witness:
  "short_song ''a b'' \<and> short_song [] \<and>
   build_distribution [''a b'', []] = [] \<and>
   generate_song always_first [''a b'', []] 5 = Inl IndexError"
proof -
  have s: "short_song ''a b''" "short_song []"
    by code_simp+
  then have "\<forall>s\<in>set [''a b'', []]. short_song s"
    by simp
  with empty_distribution_fails [of "[''a b'', []]" always_first 5] s show ?thesis
    by simp
qed

text \<open>
  On the empty corpus with \<open>word_count = 2\<close> the failure is the \<^verbatim>\<open>IndexError\<close> of the
  first iteration, not a \<open>GenerationError\<close>; with \<open>word_count = 1\<close> it is a
  \<^verbatim>\<open>TypeError\<close>.
\<close>

theorem no_generation_error_counterexample:
  "build_distribution [] = [] \<and>
   generate_song always_first [] 2 = Inl IndexError \<and>
   generate_song always_first [] 2 \<noteq> Inl GenerationError \<and>
   walk_step always_first (build_distribution []) init_state = Inl IndexError \<and>
   generate_song always_first [] 1 = Inl TypeError"
  by code_simp

text \<open>
  C9. With \<open>word_count = 1\<close> the loop of line 116 runs zero times, line 131 appends
  \<open>word2\<close> while it is still \<^verbatim>\<open>None\<close>, and the join of line 133 fails with
  \<^verbatim>\<open>TypeError\<close>, for every corpus and every random source.
\<close>

theorem word_count_one:
  "walk_loop rnd (build_distribution corpus) (nat (1 - 1)) init_state = Inr init_state \<and>
   chain_walk rnd (build_distribution corpus) 1 = Inr [None] \<and>
   generate_song rnd corpus 1 = Inl TypeError"
  by (simp add: generate_song_def chain_walk_def decode_def init_state_def)

end
